theory Spec2Isabelle
  imports Main "HOL-Library.Char_ord" "HOL-Library.List_Lexorder"
begin

section \<open>Python strings, as far as the models use them\<close>

text \<open>
  A Python \<open>str\<close> is modelled as a \<open>string\<close>: a list of code points below 256.
  The whitespace classes, \<open>split\<close>, \<open>int\<close> and the formatting below are Python's on
  all of these code points. The case mappings \<open>upper\<close> and \<open>lower\<close> are Python's on
  ASCII text (\<open>str.isascii\<close>, code points below 128) only, and so is \<open>slugify\<close>
  further down; the theorems that depend on them are stated for ASCII titles.
\<close>

datatype py_error = ValueError | IndexError | DoesNotExist | MultipleObjectsReturned | IntegrityError

definition isascii :: "string \<Rightarrow> bool" where
  "isascii s \<longleftrightarrow> list_all (\<lambda>c. (of_char c :: nat) < 128) s"

definition py_isspace :: "char \<Rightarrow> bool" where
  \<comment> \<open>\<open>str.isspace\<close> on one character: tab, LF, VT, FF, CR, the separators FS, GS, RS and
      US, space, NEL (133) and the no-break space (160).\<close>
  "py_isspace c \<longleftrightarrow>
     (let n = (of_char c :: nat)
      in (9 \<le> n \<and> n \<le> 13) \<or> (28 \<le> n \<and> n \<le> 32) \<or> n = 133 \<or> n = 160)"

definition int_isspace :: "char \<Rightarrow> bool" where
  \<comment> \<open>the whitespace that \<open>int\<close> skips: tab, LF, VT, FF, CR and space, and the two
      whitespace code points above 127; not the separators FS, GS, RS, US.\<close>
  "int_isspace c \<longleftrightarrow>
     (let n = (of_char c :: nat) in (9 \<le> n \<and> n \<le> 13) \<or> n = 32 \<or> n = 133 \<or> n = 160)"

definition py_isdigit :: "char \<Rightarrow> bool" where
  "py_isdigit c \<longleftrightarrow> (let n = (of_char c :: nat) in 48 \<le> n \<and> n \<le> 57)"

definition py_upper_char :: "char \<Rightarrow> char" where
  "py_upper_char c =
     (let n = (of_char c :: nat) in if 97 \<le> n \<and> n \<le> 122 then char_of (n - 32) else c)"

definition py_lower_char :: "char \<Rightarrow> char" where
  "py_lower_char c =
     (let n = (of_char c :: nat) in if 65 \<le> n \<and> n \<le> 90 then char_of (n + 32) else c)"

definition upper :: "string \<Rightarrow> string" where
  "upper s = map py_upper_char s"

definition lower :: "string \<Rightarrow> string" where
  "lower s = map py_lower_char s"

text \<open>
  \<open>s.split()\<close> without a separator: the maximal runs of non-whitespace characters,
  in order. The first argument is the word being read.
\<close>

fun split_words :: "string \<Rightarrow> string \<Rightarrow> string list" where
  "split_words w [] = (if w = [] then [] else [w])"
| "split_words w (c # cs) =
     (if py_isspace c then (if w = [] then split_words [] cs else w # split_words [] cs)
      else split_words (w @ [c]) cs)"

definition split :: "string \<Rightarrow> string list" where
  "split s = split_words [] s"

text \<open>
  \<open>s.split(sep)\<close> with a one-character separator: the pieces between the separators,
  empty pieces included; the result always has at least one element.
\<close>

fun split_pieces :: "char \<Rightarrow> string \<Rightarrow> string \<Rightarrow> string list" where
  "split_pieces sep w [] = [w]"
| "split_pieces sep w (c # cs) =
     (if c = sep then w # split_pieces sep [] cs else split_pieces sep (w @ [c]) cs)"

definition split_sep :: "char \<Rightarrow> string \<Rightarrow> string list" where
  "split_sep sep s = split_pieces sep [] s"

text \<open>\<open>str(n)\<close> for a natural number: its decimal digits.\<close>

definition digit_char :: "nat \<Rightarrow> char" where
  "digit_char d = char_of (48 + d)"

fun digits :: "nat \<Rightarrow> string" where
  "digits n = (if n < 10 then [digit_char n] else digits (n div 10) @ [digit_char (n mod 10)])"

declare digits.simps [simp del]

definition str :: "int \<Rightarrow> string" where
  "str i = (if i < 0 then CHR ''-'' # digits (nat (- i)) else digits (nat i))"

definition zfill :: "nat \<Rightarrow> string \<Rightarrow> string" where
  "zfill width s = replicate (width - length s) CHR ''0'' @ s"

definition format_03d :: "int \<Rightarrow> string" where
  \<comment> \<open>\<open>f"{i:03d}"\<close>: sign-aware zero padding to a minimum width of three characters.\<close>
  "format_03d i =
     (if i < 0 then CHR ''-'' # zfill 2 (digits (nat (- i))) else zfill 3 (digits (nat i)))"

text \<open>
  \<open>int(s)\<close> in base ten: surrounding whitespace (of \<open>int_isspace\<close>) is skipped, one
  sign is allowed, and the digits 0 to 9 may be grouped by single underscores. Anything
  else raises \<open>ValueError\<close>. The limit of \<open>int\<close> on the number of digits (several
  thousand) is not modelled; a serial number has at most 20 characters.
\<close>

definition strip :: "string \<Rightarrow> string" where
  "strip s = rev (dropWhile int_isspace (rev (dropWhile int_isspace s)))"

definition digit_val :: "char \<Rightarrow> int" where
  "digit_val c = int (of_char c) - 48"

fun parse_digits :: "bool \<Rightarrow> int \<Rightarrow> string \<Rightarrow> int option" where
  "parse_digits prev acc [] = (if prev then Some acc else None)"
| "parse_digits prev acc (c # cs) =
     (if py_isdigit c then parse_digits True (acc * 10 + digit_val c) cs
      else if c = CHR ''_'' \<and> prev then parse_digits False acc cs
      else None)"

definition py_int :: "string \<Rightarrow> py_error + int" where
  "py_int s =
     (case strip s of
        [] \<Rightarrow> Inl ValueError
      | c # cs \<Rightarrow>
          (case (if c = CHR ''-'' then map_option uminus (parse_digits False 0 cs)
                 else if c = CHR ''+'' then parse_digits False 0 cs
                 else parse_digits False 0 (c # cs)) of
             None \<Rightarrow> Inl ValueError
           | Some n \<Rightarrow> Inr n))"

section \<open>The models of \<open>events/models.py\<close>\<close>

text \<open>
  The two model classes, with the columns that \<open>save\<close>, \<open>generate_unique_sno\<close> and
  the scan endpoints read or write; the other columns pass through unchanged. A primary
  key is \<open>None\<close> until the row is first saved. The field \<open>event\<close> of a booking is
  the related object as \<open>self.event\<close> gives it.
\<close>

record Event =
  event_pk :: "nat option"
  title :: string
  slug :: string

record Booking =
  booking_pk :: "nat option"
  event :: Event
  sno :: string
  qr_code :: string
  is_activated :: bool
  payment_amount :: int
  total_amount :: int

text \<open>
  \<open>Booking.objects.filter(event=e)\<close> compares the foreign key with the primary key of
  \<open>e\<close>; \<open>order_by('-sno')\<close> sorts by descending serial number, here in the
  lexicographic order of the character codes. On the sorted list, \<open>exists()\<close> is
  non-emptiness, \<open>first()\<close> the head and \<open>count()\<close> the length.
\<close>

definition filter_event :: "Event \<Rightarrow> Booking list \<Rightarrow> Booking list" where
  "filter_event e objects = filter (\<lambda>b. event_pk (event b) = event_pk e) objects"

definition order_by_desc_sno :: "Booking list \<Rightarrow> Booking list" where
  "order_by_desc_sno bs = rev (sort_key sno bs)"

definition sno_exists :: "Booking list \<Rightarrow> string \<Rightarrow> bool" where
  \<comment> \<open>\<open>Booking.objects.filter(sno=s).exists()\<close>\<close>
  "sno_exists objects s \<longleftrightarrow> filter (\<lambda>b. sno b = s) objects \<noteq> []"

definition make_sno :: "string \<Rightarrow> int \<Rightarrow> string" where
  \<comment> \<open>\<open>f"{event_acronym}-{number:03d}"\<close>\<close>
  "make_sno event_acronym number = event_acronym @ ''-'' @ format_03d number"

text \<open>
  The uniqueness loop of \<open>generate_unique_sno\<close>, on its two variables \<open>new_sno\<close> and
  \<open>counter\<close>. The source gives it no bound, so it is a partial function: \<open>None\<close> is a
  loop that does not end.
\<close>

partial_function (option) sno_loop ::
  "Booking list \<Rightarrow> string \<Rightarrow> int \<Rightarrow> string \<Rightarrow> int \<Rightarrow> (string \<times> int) option" where
  "sno_loop objects event_acronym new_number new_sno counter =
     (if sno_exists objects new_sno
      then sno_loop objects event_acronym new_number
             (make_sno event_acronym (new_number + counter)) (counter + 1)
      else Some (new_sno, counter))"

declare sno_loop.simps [code]

text \<open>
  The words that \<open>split\<close> returns are never empty (lemma \<open>split_nonempty\<close> below),
  so \<open>word[0]\<close> is always there.
\<close>

definition event_acronym_of :: "string \<Rightarrow> string" where
  \<comment> \<open>\<open>''.join([word[0].upper() for word in title.split()[:3]])\<close>\<close>
  "event_acronym_of t = concat (map (\<lambda>word. upper [hd word]) (take 3 (split t)))"

definition highest_number_of :: "Booking list \<Rightarrow> int" where
  "highest_number_of existing_bookings =
     (if existing_bookings \<noteq> [] then
        (let highest_sno = sno (hd existing_bookings) in
           case py_int (last (split_sep CHR ''-'' highest_sno)) of
             Inr n \<Rightarrow> n
           | Inl _ \<Rightarrow> int (length existing_bookings))
      else 0)"

text \<open>
  Both \<open>ValueError\<close> and \<open>IndexError\<close> are caught around the parse; the count of
  the event's bookings then stands for the highest number.
\<close>

definition generate_unique_sno :: "Booking list \<Rightarrow> Booking \<Rightarrow> string option" where
  "generate_unique_sno objects self =
     (let event_acronym = event_acronym_of (title (event self));
          existing_bookings = order_by_desc_sno (filter_event (event self) objects);
          highest_number = highest_number_of existing_bookings;
          new_number = highest_number + 1;
          new_sno = make_sno event_acronym new_number
      in map_option fst (sno_loop objects event_acronym new_number new_sno 1))"

definition booking_qr_path :: "Booking \<Rightarrow> string \<Rightarrow> string" where
  \<comment> \<open>\<open>f'bookings/{instance.event.slug}/{filename}'\<close>, the \<open>upload_to\<close> of \<open>qr_code\<close>\<close>
  "booking_qr_path instance filename = ''bookings/'' @ slug (event instance) @ ''/'' @ filename"

text \<open>
  \<open>self.qr_code.save(filename, File(buffer), save=False)\<close> with
  \<open>filename = f"{self.sno}_qr.png"\<close>: the image is not modelled, the field receives the
  name under which it is stored, which \<open>upload_to\<close> gives. (The storage may still
  change that name to make it valid and unused; no theorem below states the name.)
\<close>

definition generate_qr_code :: "Booking \<Rightarrow> Booking" where
  "generate_qr_code self = self\<lparr>qr_code := booking_qr_path self (sno self @ ''_qr.png'')\<rparr>"

definition status :: "Booking \<Rightarrow> string" where
  "status self = (if is_activated self then ''Activated'' else ''Not Scanned'')"

subsection \<open>The slug of an event\<close>

text \<open>
  \<open>django.utils.text.slugify\<close> (imported by \<open>events/models.py\<close>) is the library's
  function. It first normalises the text (NFKD) and drops what is not ASCII; on ASCII
  text that step changes nothing, and the function is
  \<^verbatim>\<open>value = re.sub(r"[^\w\s-]", "", value.lower())\<close>,
  \<^verbatim>\<open>return re.sub(r"[-\s]+", "-", value).strip("-_")\<close>.
  The model is these two lines: it is \<open>slugify\<close> on ASCII titles only.
\<close>

definition py_isalnum :: "char \<Rightarrow> bool" where
  "py_isalnum c \<longleftrightarrow>
     (let n = (of_char c :: nat)
      in (48 \<le> n \<and> n \<le> 57) \<or> (65 \<le> n \<and> n \<le> 90) \<or> (97 \<le> n \<and> n \<le> 122))"

definition is_word_char :: "char \<Rightarrow> bool" where
  \<comment> \<open>the class \<open>\w\<close>\<close>
  "is_word_char c \<longleftrightarrow> py_isalnum c \<or> c = CHR ''_''"

definition is_dash_or_space :: "char \<Rightarrow> bool" where
  \<comment> \<open>the class \<open>[-\s]\<close>\<close>
  "is_dash_or_space c \<longleftrightarrow> c = CHR ''-'' \<or> py_isspace c"

fun collapse_runs :: "bool \<Rightarrow> string \<Rightarrow> string" where
  \<comment> \<open>\<open>re.sub(r"[-\s]+", "-", s)\<close>; the flag says that the previous character was in a run.\<close>
  "collapse_runs in_run [] = []"
| "collapse_runs in_run (c # cs) =
     (if is_dash_or_space c
      then (if in_run then collapse_runs True cs else CHR ''-'' # collapse_runs True cs)
      else c # collapse_runs False cs)"

definition strip_chars :: "(char \<Rightarrow> bool) \<Rightarrow> string \<Rightarrow> string" where
  "strip_chars p s = rev (dropWhile p (rev (dropWhile p s)))"

definition slugify :: "string \<Rightarrow> string" where
  "slugify value_in =
     (let value1 = filter (\<lambda>c. is_word_char c \<or> is_dash_or_space c) (lower value_in)
      in strip_chars (\<lambda>c. c = CHR ''-'' \<or> c = CHR ''_'') (collapse_runs False value1))"

definition slug_exists :: "Event list \<Rightarrow> string \<Rightarrow> bool" where
  \<comment> \<open>\<open>Event.objects.filter(slug=s).exists()\<close>\<close>
  "slug_exists objects s \<longleftrightarrow> filter (\<lambda>e. slug e = s) objects \<noteq> []"

definition make_slug :: "string \<Rightarrow> int \<Rightarrow> string" where
  \<comment> \<open>\<open>f"{base_slug}-{counter}"\<close>\<close>
  "make_slug base_slug counter = base_slug @ ''-'' @ str counter"

text \<open>The loop of \<open>Event.save\<close>, on its variables \<open>slug\<close> and \<open>counter\<close>.\<close>

partial_function (option) slug_loop ::
  "Event list \<Rightarrow> string \<Rightarrow> string \<Rightarrow> int \<Rightarrow> (string \<times> int) option" where
  "slug_loop objects base_slug slug_var counter =
     (if slug_exists objects slug_var
      then slug_loop objects base_slug (make_slug base_slug counter) (counter + 1)
      else Some (slug_var, counter))"

declare slug_loop.simps [code]

definition generate_slug :: "Event list \<Rightarrow> string \<Rightarrow> string option" where
  \<comment> \<open>the body of the \<open>if\<close> in \<open>Event.save\<close>: the value assigned to \<open>self.slug\<close>\<close>
  "generate_slug objects title_in =
     (let base_slug = slugify title_in
      in map_option fst (slug_loop objects base_slug base_slug 1))"

subsection \<open>The store and the two \<open>save\<close> methods\<close>

record db =
  events :: "Event list"
  bookings :: "Booking list"

definition next_pk :: "nat option list \<Rightarrow> nat" where
  \<comment> \<open>the key the database gives to a new row: one that no row has\<close>
  "next_pk pks = Suc (fold max (map (case_option 0 id) pks) 0)"

text \<open>
  \<open>Model.save\<close> of the framework, for each table: the unique column is checked against
  the other rows, a row without a primary key is inserted with a new one, a row with a
  primary key replaces the stored row of that key (or is inserted when there is none).
\<close>

definition Event_super_save :: "db \<Rightarrow> Event \<Rightarrow> py_error + Event \<times> db" where
  "Event_super_save d self =
     (if filter (\<lambda>r. event_pk r \<noteq> event_pk self \<and> slug r = slug self) (events d) \<noteq> []
      then Inl IntegrityError
      else case event_pk self of
        None \<Rightarrow>
          (let self1 = self\<lparr>event_pk := Some (next_pk (map event_pk (events d)))\<rparr>
           in Inr (self1, d\<lparr>events := events d @ [self1]\<rparr>))
      | Some i \<Rightarrow>
          (if filter (\<lambda>r. event_pk r = Some i) (events d) \<noteq> []
           then Inr (self, d\<lparr>events := map (\<lambda>r. if event_pk r = Some i then self else r) (events d)\<rparr>)
           else Inr (self, d\<lparr>events := events d @ [self]\<rparr>)))"

definition Booking_super_save :: "db \<Rightarrow> Booking \<Rightarrow> py_error + Booking \<times> db" where
  "Booking_super_save d self =
     (if filter (\<lambda>r. booking_pk r \<noteq> booking_pk self \<and> sno r = sno self) (bookings d) \<noteq> []
      then Inl IntegrityError
      else case booking_pk self of
        None \<Rightarrow>
          (let self1 = self\<lparr>booking_pk := Some (next_pk (map booking_pk (bookings d)))\<rparr>
           in Inr (self1, d\<lparr>bookings := bookings d @ [self1]\<rparr>))
      | Some i \<Rightarrow>
          (if filter (\<lambda>r. booking_pk r = Some i) (bookings d) \<noteq> []
           then Inr (self, d\<lparr>bookings := map (\<lambda>r. if booking_pk r = Some i then self else r) (bookings d)\<rparr>)
           else Inr (self, d\<lparr>bookings := bookings d @ [self]\<rparr>)))"

definition Event_save :: "db \<Rightarrow> Event \<Rightarrow> (py_error + Event \<times> db) option" where
  "Event_save d self =
     (case (if slug self = [] then generate_slug (events d) (title self) else Some (slug self)) of
        None \<Rightarrow> None
      | Some s \<Rightarrow> Some (Event_super_save d (self\<lparr>slug := s\<rparr>)))"

definition Booking_save :: "db \<Rightarrow> Booking \<Rightarrow> (py_error + Booking \<times> db) option" where
  "Booking_save d self =
     (case (if sno self = [] then generate_unique_sno (bookings d) self else Some (sno self)) of
        None \<Rightarrow> None
      | Some s \<Rightarrow>
          (let self1 = self\<lparr>sno := s\<rparr>;
               self2 = (if qr_code self1 = [] then generate_qr_code self1 else self1);
               self3 = (if payment_amount self2 > 0
                        then self2\<lparr>total_amount := payment_amount self2\<rparr> else self2)
           in Some (Booking_super_save d self3)))"

section \<open>The scan endpoints of \<open>events/views.py\<close>\<close>

text \<open>
  The answer of a scan, without the serialized booking: the keys \<open>is_activated\<close>,
  \<open>status\<close> and \<open>message\<close>. A booking that is not found is answered with 404.
\<close>

record scan_data =
  data_is_activated :: bool
  data_status :: string
  data_message :: string

datatype response = Response scan_data | Http404

definition objects_get :: "('a \<Rightarrow> bool) \<Rightarrow> 'a list \<Rightarrow> py_error + 'a" where
  \<comment> \<open>\<open>Model.objects.get(...)\<close>: exactly one row, or an exception\<close>
  "objects_get p objects =
     (case filter p objects of
        [] \<Rightarrow> Inl DoesNotExist
      | [r] \<Rightarrow> Inr r
      | _ \<Rightarrow> Inl MultipleObjectsReturned)"

definition scan_response :: "Booking \<Rightarrow> scan_data" where
  "scan_response booking =
     \<lparr>data_is_activated = is_activated booking,
      data_status = status booking,
      data_message = ''Booking '' @ sno booking @ '' '' @
        (if is_activated booking then ''activated'' else ''deactivated'') @ '' successfully''\<rparr>"

definition toggle_and_save :: "db \<Rightarrow> Booking \<Rightarrow> (py_error + response \<times> db) option" where
  \<comment> \<open>the part the two endpoints share: negate the flag, save, answer\<close>
  "toggle_and_save d booking =
     (case Booking_save d (booking\<lparr>is_activated := \<not> is_activated booking\<rparr>) of
        None \<Rightarrow> None
      | Some (Inl e) \<Rightarrow> Some (Inl e)
      | Some (Inr (booking1, d1)) \<Rightarrow> Some (Inr (Response (scan_response booking1), d1)))"

definition scan_qr :: "db \<Rightarrow> nat \<Rightarrow> (py_error + response \<times> db) option" where
  "scan_qr d pk =
     (case objects_get (\<lambda>b. booking_pk b = Some pk) (bookings d) of
        Inl DoesNotExist \<Rightarrow> Some (Inr (Http404, d))
      | Inl e \<Rightarrow> Some (Inl e)
      | Inr booking \<Rightarrow> toggle_and_save d booking)"

definition scan_qr_by_sno :: "db \<Rightarrow> string \<Rightarrow> (py_error + response \<times> db) option" where
  "scan_qr_by_sno d sno_in =
     (case objects_get (\<lambda>b. sno b = sno_in) (bookings d) of
        Inl DoesNotExist \<Rightarrow> Some (Inr (Http404, d))
      | Inl e \<Rightarrow> Some (Inl e)
      | Inr booking \<Rightarrow> toggle_and_save d booking)"

section \<open>Auxiliary functions of the proofs\<close>

text \<open>The value of a digit string, and the inverse of \<open>format_03d\<close> and of \<open>str\<close>.\<close>

definition dec_val :: "string \<Rightarrow> nat" where
  "dec_val s = foldl (\<lambda>a c. 10 * a + (of_char c - 48)) 0 s"

definition unformat :: "string \<Rightarrow> int" where
  "unformat s = (if hd s = CHR ''-'' then - int (dec_val (tl s)) else int (dec_val s))"

definition new_number_of :: "Booking list \<Rightarrow> Booking \<Rightarrow> int" where
  \<comment> \<open>the value of \<open>new_number\<close> before the uniqueness loop\<close>
  "new_number_of objects self =
     highest_number_of (order_by_desc_sno (filter_event (event self) objects)) + 1"

definition digits_value :: "int \<Rightarrow> string \<Rightarrow> int" where
  "digits_value acc s = foldl (\<lambda>a c. a * 10 + digit_val c) acc s"

text \<open>What \<open>Booking.save\<close> fills in for a booking that has its serial number.\<close>

definition with_defaults :: "Booking \<Rightarrow> Booking" where
  "with_defaults self =
     (let self2 = (if qr_code self = [] then generate_qr_code self else self)
      in if payment_amount self2 > 0 then self2\<lparr>total_amount := payment_amount self2\<rparr> else self2)"

section \<open>Notions of the specification\<close>

text \<open>
  The sequence component of a serial number is read the way the source reads it,
  \<open>int(sno.split('-')[-1])\<close>; \<open>None\<close> when that raises. The maximum of an event's
  sequence numbers is taken over the serial numbers that have one; it is used only where
  there is one.
\<close>

definition sequence_number :: "string \<Rightarrow> int option" where
  "sequence_number s =
     (case py_int (last (split_sep CHR ''-'' s)) of Inr n \<Rightarrow> Some n | Inl _ \<Rightarrow> None)"

definition max_sequence :: "Booking list \<Rightarrow> int" where
  "max_sequence bs = Max (set (List.map_filter (\<lambda>b. sequence_number (sno b)) bs))"

text \<open>
  The base slug as the specification words it: the title in lowercase, every
  non-alphanumeric character replaced by a hyphen.
\<close>

definition spec_base_slug :: "string \<Rightarrow> string" where
  "spec_base_slug t = map (\<lambda>c. if py_isalnum c then py_lower_char c else CHR ''-'') t"

text \<open>
  A title of alphanumeric words with single spaces or hyphens between them: it neither
  starts nor ends with a separator, and no two separators are adjacent. The flag says
  that the previous character was a separator (or that the title starts here).
\<close>

fun separated :: "bool \<Rightarrow> string \<Rightarrow> bool" where
  "separated prev [] = (\<not> prev)"
| "separated prev (c # cs) =
     (if py_isalnum c then separated False cs
      else is_dash_or_space c \<and> \<not> prev \<and> separated True cs)"

definition simple_title :: "string \<Rightarrow> bool" where
  "simple_title t \<longleftrightarrow> t = [] \<or> separated True t"

text \<open>
  The booking table as the database keeps it: primary keys and serial numbers are
  unique, and every stored row has both.
\<close>

definition wf_bookings :: "Booking list \<Rightarrow> bool" where
  "wf_bookings bs \<longleftrightarrow>
     distinct (map booking_pk bs) \<and> distinct (map sno bs) \<and>
     (\<forall>b\<in>set bs. booking_pk b \<noteq> None \<and> sno b \<noteq> [])"

section \<open>Example data\<close>

definition alpha :: Event where
  "alpha = \<lparr>event_pk = Some 1, title = ''Alpha Meetup'', slug = ''alpha-meetup''\<rparr>"

definition apple :: Event where
  "apple = \<lparr>event_pk = Some 2, title = ''apple market'', slug = ''apple-market''\<rparr>"

definition stored :: "nat \<Rightarrow> Event \<Rightarrow> string \<Rightarrow> Booking" where
  "stored i e s =
     \<lparr>booking_pk = Some i, event = e, sno = s,
      qr_code = ''bookings/'' @ slug e @ ''/'' @ s @ ''_qr.png'',
      is_activated = False, payment_amount = 0, total_amount = 0\<rparr>"

definition unsaved :: "Event \<Rightarrow> Booking" where
  "unsaved e =
     \<lparr>booking_pk = None, event = e, sno = [], qr_code = [],
      is_activated = False, payment_amount = 0, total_amount = 0\<rparr>"

definition ats :: Event where
  "ats = \<lparr>event_pk = Some 3, title = ''Annual Tech Summit'', slug = ''annual-tech-summit''\<rparr>"

definition asia :: Event where
  "asia = \<lparr>event_pk = Some 4, title = ''asia travel show 2025'', slug = ''asia-travel-show-2025''\<rparr>"

definition untitled :: Event where
  "untitled = \<lparr>event_pk = Some 5, title = [], slug = []\<rparr>"

definition blank :: Event where
  "blank = \<lparr>event_pk = Some 6, title = ''   '', slug = ''-1''\<rparr>"

definition empty_db :: db where
  "empty_db = \<lparr>events = [], bookings = []\<rparr>"

definition summit :: Event where
  "summit = \<lparr>event_pk = None, title = ''Annual Tech Summit'', slug = []\<rparr>"

definition summit_first :: Event where
  "summit_first = summit\<lparr>event_pk := Some 1, slug := ''annual-tech-summit''\<rparr>"

definition summit_second :: Event where
  "summit_second = summit\<lparr>event_pk := Some 2, slug := ''annual-tech-summit-1''\<rparr>"

definition two_bookings :: db where
  "two_bookings =
     \<lparr>events = [alpha, apple],
      bookings = [stored 1 alpha ''AM-001'', stored 2 apple ''AM-002'']\<rparr>"

definition two_bookings_scanned :: db where
  "two_bookings_scanned =
     \<lparr>events = [alpha, apple],
      bookings = [stored 1 alpha ''AM-001'', (stored 2 apple ''AM-002'')\<lparr>is_activated := True\<rparr>]\<rparr>"

section \<open>Decimal formatting is injective\<close>

lemma dec_val_snoc: "dec_val (s @ [c]) = 10 * dec_val s + (of_char c - 48)"
  by (simp add: dec_val_def)

lemma of_char_digit_char: "d < 10 \<Longrightarrow> (of_char (digit_char d) :: nat) = 48 + d"
  by (simp add: digit_char_def)

lemma dec_val_digits: "dec_val (digits n) = n"
proof (induction n rule: digits.induct)
  case (1 n)
  show ?case
  proof (cases "n < 10")
    case True
    then show ?thesis
      by (subst digits.simps) (simp add: dec_val_def of_char_digit_char)
  next
    case False
    then have "dec_val (digits (n div 10)) = n div 10" using 1 by simp
    with False show ?thesis
      by (subst digits.simps) (simp add: dec_val_snoc of_char_digit_char)
  qed
qed

lemma dec_val_zeros: "dec_val (replicate k CHR ''0'' @ s) = dec_val s"
proof -
  have "foldl (\<lambda>a c. 10 * a + (of_char c - 48)) (0::nat) (replicate k CHR ''0'') = 0"
    by (induction k) simp_all
  then show ?thesis by (simp add: dec_val_def)
qed

lemma dec_val_zfill: "dec_val (zfill w (digits n)) = n"
  by (simp add: zfill_def dec_val_zeros dec_val_digits)

lemma digits_chars: "c \<in> set (digits n) \<Longrightarrow> py_isdigit c"
proof (induction n rule: digits.induct)
  case (1 n)
  have d: "py_isdigit (digit_char k)" if "k < 10" for k
    using that by (simp add: py_isdigit_def of_char_digit_char)
  show ?case
  proof (cases "n < 10")
    case True
    with 1(2) show ?thesis by (subst (asm) digits.simps) (simp add: d)
  next
    case False
    with 1 show ?thesis by (subst (asm) digits.simps) (auto simp: d)
  qed
qed

lemma digits_nonempty: "digits n \<noteq> []"
  by (subst digits.simps) simp

lemma zfill_chars: "c \<in> set (zfill w (digits n)) \<Longrightarrow> py_isdigit c"
  by (auto simp: zfill_def py_isdigit_def dest: digits_chars)

lemma zfill_nonempty: "zfill w (digits n) \<noteq> []"
  by (simp add: zfill_def digits_nonempty)

lemma unformat_format_03d: "unformat (format_03d i) = i"
proof (cases "i < 0")
  case True
  then show ?thesis by (simp add: format_03d_def unformat_def dec_val_zfill)
next
  case False
  have "hd (zfill 3 (digits (nat i))) \<in> set (zfill 3 (digits (nat i)))"
    by (rule hd_in_set) (rule zfill_nonempty)
  then have "py_isdigit (hd (zfill 3 (digits (nat i))))" by (rule zfill_chars)
  then have "hd (zfill 3 (digits (nat i))) \<noteq> CHR ''-''"
    by (auto simp: py_isdigit_def)
  with False show ?thesis by (simp add: format_03d_def unformat_def dec_val_zfill)
qed

lemma format_03d_inj: "format_03d i = format_03d j \<Longrightarrow> i = j"
  by (metis unformat_format_03d)

lemma make_sno_inj: "make_sno a i = make_sno a j \<Longrightarrow> i = j"
  by (auto simp: make_sno_def dest: format_03d_inj)

lemma sno_exists_iff: "sno_exists objects s \<longleftrightarrow> s \<in> sno ` set objects"
  by (auto simp: sno_exists_def filter_empty_conv)

lemma sno_loop_stop:
  "\<not> sno_exists objects s \<Longrightarrow> sno_loop objects a n s c = Some (s, c)"
  by (subst sno_loop.simps) simp

lemma sno_loop_step:
  "sno_exists objects s \<Longrightarrow>
   sno_loop objects a n s c = sno_loop objects a n (make_sno a (n + c)) (c + 1)"
  by (subst sno_loop.simps) simp

lemma sno_loop_run:
  "\<not> sno_exists objects (make_sno a (n + c + int d)) \<Longrightarrow>
   \<forall>j<d. sno_exists objects (make_sno a (n + c + int j)) \<Longrightarrow>
   sno_exists objects s \<Longrightarrow>
   sno_loop objects a n s c = Some (make_sno a (n + c + int d), c + int d + 1)"
proof (induction d arbitrary: s c)
  case 0
  then show ?case by (simp add: sno_loop_step sno_loop_stop)
next
  case (Suc d)
  have ex: "sno_exists objects (make_sno a (n + c))" using Suc.prems(2) by force
  have a1: "\<not> sno_exists objects (make_sno a (n + (c + 1) + int d))"
    using Suc.prems(1) by (simp add: algebra_simps)
  have a2: "\<forall>j<d. sno_exists objects (make_sno a (n + (c + 1) + int j))"
  proof (intro allI impI)
    fix j assume "j < d"
    then have "sno_exists objects (make_sno a (n + c + int (Suc j)))"
      using Suc.prems(2) by blast
    then show "sno_exists objects (make_sno a (n + (c + 1) + int j))"
      by (simp add: algebra_simps)
  qed
  have "sno_loop objects a n s c = sno_loop objects a n (make_sno a (n + c)) (c + 1)"
    using Suc.prems(3) by (rule sno_loop_step)
  also have "\<dots> = Some (make_sno a (n + (c + 1) + int d), (c + 1) + int d + 1)"
    using a1 a2 ex by (rule Suc.IH)
  finally show ?case by (simp add: algebra_simps)
qed

lemma fresh_candidate:
  "\<exists>k\<le>length objects. \<not> sno_exists objects (make_sno a (n + int k))"
proof (rule ccontr)
  assume "\<not> ?thesis"
  then have all: "\<forall>k\<le>length objects. make_sno a (n + int k) \<in> sno ` set objects"
    by (simp add: sno_exists_iff)
  let ?f = "\<lambda>k. make_sno a (n + int k)"
  have inj: "inj_on ?f {..length objects}"
    by (rule inj_onI) (auto dest: make_sno_inj)
  have "?f ` {..length objects} \<subseteq> sno ` set objects" using all by auto
  then have "card (?f ` {..length objects}) \<le> card (sno ` set objects)"
    by (intro card_mono) simp_all
  also have "\<dots> \<le> card (set objects)" by (rule card_image_le) simp
  also have "\<dots> \<le> length objects" by (rule card_length)
  finally show False using inj by (simp add: card_image)
qed

lemma least_fresh_candidate:
  "\<exists>k\<le>length objects. \<not> sno_exists objects (make_sno a (n + int k)) \<and>
     (\<forall>j<k. sno_exists objects (make_sno a (n + int j)))"
proof -
  let ?P = "\<lambda>k. \<not> sno_exists objects (make_sno a (n + int k))"
  obtain k0 where k0: "k0 \<le> length objects" "?P k0" using fresh_candidate by blast
  define k where "k = (LEAST k. ?P k)"
  have "?P k" unfolding k_def using k0(2) by (rule LeastI)
  moreover have "k \<le> k0" unfolding k_def using k0(2) by (rule Least_le)
  moreover have "\<forall>j<k. \<not> ?P j" unfolding k_def using not_less_Least by blast
  ultimately show ?thesis using k0(1) by (intro exI[of _ k]) auto
qed

lemma sno_loop_result:
  "\<exists>k\<le>length objects.
     sno_loop objects a n (make_sno a n) 1 = Some (make_sno a (n + int k), int k + 1) \<and>
     \<not> sno_exists objects (make_sno a (n + int k)) \<and>
     (\<forall>j<k. sno_exists objects (make_sno a (n + int j)))"
proof -
  obtain k where k: "k \<le> length objects" "\<not> sno_exists objects (make_sno a (n + int k))"
    "\<forall>j<k. sno_exists objects (make_sno a (n + int j))"
    using least_fresh_candidate by blast
  have "sno_loop objects a n (make_sno a n) 1 = Some (make_sno a (n + int k), int k + 1)"
  proof (cases k)
    case 0
    with k(2) show ?thesis by (simp add: sno_loop_stop)
  next
    case (Suc d)
    have ex0: "sno_exists objects (make_sno a n)" using k(3) Suc by force
    have a1: "\<not> sno_exists objects (make_sno a (n + 1 + int d))"
      using k(2) Suc by (simp add: algebra_simps)
    have a2: "\<forall>j<d. sno_exists objects (make_sno a (n + 1 + int j))"
    proof (intro allI impI)
      fix j assume "j < d"
      then have "sno_exists objects (make_sno a (n + int (Suc j)))" using k(3) Suc by blast
      then show "sno_exists objects (make_sno a (n + 1 + int j))" by (simp add: algebra_simps)
    qed
    have "sno_loop objects a n (make_sno a n) 1 = Some (make_sno a (n + 1 + int d), 1 + int d + 1)"
      using a1 a2 ex0 by (rule sno_loop_run)
    then show ?thesis using Suc by (simp add: algebra_simps)
  qed
  with k show ?thesis by blast
qed

lemma generate_unique_sno_result:
  "\<exists>k\<le>length objects.
     generate_unique_sno objects self =
       Some (make_sno (event_acronym_of (title (event self))) (new_number_of objects self + int k)) \<and>
     \<not> sno_exists objects
         (make_sno (event_acronym_of (title (event self))) (new_number_of objects self + int k)) \<and>
     (\<forall>j<k. sno_exists objects
         (make_sno (event_acronym_of (title (event self))) (new_number_of objects self + int j)))"
proof -
  obtain k where k: "k \<le> length objects"
    "sno_loop objects (event_acronym_of (title (event self))) (new_number_of objects self)
       (make_sno (event_acronym_of (title (event self))) (new_number_of objects self)) 1 =
     Some (make_sno (event_acronym_of (title (event self))) (new_number_of objects self + int k),
           int k + 1)"
    "\<not> sno_exists objects
         (make_sno (event_acronym_of (title (event self))) (new_number_of objects self + int k))"
    "\<forall>j<k. sno_exists objects
         (make_sno (event_acronym_of (title (event self))) (new_number_of objects self + int j))"
    using sno_loop_result by blast
  have "generate_unique_sno objects self =
     Some (make_sno (event_acronym_of (title (event self))) (new_number_of objects self + int k))"
    using k(2) by (simp add: generate_unique_sno_def new_number_of_def Let_def)
  with k show ?thesis by blast
qed

section \<open>The serial number is fresh, and the loop ends\<close>

text \<open>
  C1. For every list of stored bookings, of whatever events, \<open>generate_unique_sno\<close>
  returns a serial number, and no stored booking has it.
\<close>

theorem generate_unique_sno_fresh:
  "\<exists>s. generate_unique_sno objects self = Some s \<and> (\<forall>b\<in>set objects. sno b \<noteq> s)"
proof -
  obtain k where
    "generate_unique_sno objects self =
       Some (make_sno (event_acronym_of (title (event self))) (new_number_of objects self + int k))"
    "\<not> sno_exists objects
         (make_sno (event_acronym_of (title (event self))) (new_number_of objects self + int k))"
    using generate_unique_sno_result by blast
  then show ?thesis unfolding sno_exists_iff by (metis imageI)
qed

theorem generate_unique_sno_fresh_witness:
  "generate_unique_sno [stored 1 alpha ''AM-001'', stored 2 apple ''AM-002''] (unsaved alpha)
     = Some ''AM-003'' \<and>
   ''AM-003'' \<notin> sno ` set [stored 1 alpha ''AM-001'', stored 2 apple ''AM-002'']"
proof -
  have "generate_unique_sno [stored 1 alpha ''AM-001'', stored 2 apple ''AM-002''] (unsaved alpha)
     = Some ''AM-003''"
    by code_simp
  then show ?thesis
    using generate_unique_sno_fresh
      [of "[stored 1 alpha ''AM-001'', stored 2 apple ''AM-002'']" "unsaved alpha"]
    by auto
qed

section \<open>Reading a serial number back\<close>

lemma split_pieces_no_sep: "sep \<notin> set t \<Longrightarrow> split_pieces sep w t = [w @ t]"
  by (induction t arbitrary: w) auto

lemma split_pieces_nonempty: "split_pieces sep w s \<noteq> []"
  by (induction s arbitrary: w) auto

lemma last_split_pieces: "sep \<notin> set t \<Longrightarrow> last (split_pieces sep w (u @ sep # t)) = t"
  by (induction u arbitrary: w) (auto simp: split_pieces_no_sep split_pieces_nonempty)

lemma last_split_pieces_no_sep: "sep \<notin> set w \<Longrightarrow> sep \<notin> set (last (split_pieces sep w s))"
  by (induction s arbitrary: w) (auto simp: split_pieces_nonempty)

lemma last_split_sep_no_sep: "sep \<notin> set (last (split_sep sep s))"
  by (simp add: split_sep_def last_split_pieces_no_sep)

lemma dropWhile_none: "\<forall>c\<in>set t. \<not> p c \<Longrightarrow> dropWhile p t = t"
  by (cases t) auto

lemma strip_id: "\<forall>c\<in>set t. \<not> int_isspace c \<Longrightarrow> strip t = t"
  by (simp add: strip_def dropWhile_none)

lemma set_strip: "set (strip t) \<subseteq> set t"
  by (auto simp: strip_def dest!: set_dropWhileD)

lemma parse_digits_all_digits:
  "\<forall>c\<in>set t. py_isdigit c \<Longrightarrow>
   parse_digits prev acc t = (if t = [] \<and> \<not> prev then None else Some (digits_value acc t))"
  by (induction t arbitrary: prev acc) (auto simp: digits_value_def)

lemma digits_value_dec_val:
  "\<forall>c\<in>set t. py_isdigit c \<Longrightarrow>
   digits_value (int a) t = int (foldl (\<lambda>a c. 10 * a + (of_char c - 48)) a t)"
proof (induction t arbitrary: a)
  case Nil
  then show ?case by (simp add: digits_value_def)
next
  case (Cons c t)
  have c: "48 \<le> (of_char c :: nat)" using Cons.prems by (simp add: py_isdigit_def Let_def)
  have e: "int a * 10 + digit_val c = int (10 * a + (of_char c - 48))"
    using c by (simp add: digit_val_def)
  have "digits_value (int a) (c # t) = digits_value (int (10 * a + (of_char c - 48))) t"
    unfolding digits_value_def foldl_Cons e ..
  also have "\<dots> = int (foldl (\<lambda>a c. 10 * a + (of_char c - 48)) (10 * a + (of_char c - 48)) t)"
    using Cons.prems by (intro Cons.IH) simp
  finally show ?case by simp
qed

lemma digit_not_space: "py_isdigit c \<Longrightarrow> \<not> int_isspace c"
  by (auto simp: py_isdigit_def int_isspace_def Let_def)

lemma py_int_zfill: "py_int (zfill w (digits n)) = Inr (int n)"
proof -
  let ?t = "zfill w (digits n)"
  have dig: "\<forall>c\<in>set ?t. py_isdigit c" using zfill_chars by blast
  then have st: "strip ?t = ?t" by (intro strip_id) (blast dest: digit_not_space)
  obtain c cs where t: "?t = c # cs" using zfill_nonempty by (cases ?t) auto
  have "py_isdigit c" using dig t by simp
  then have c: "c \<noteq> CHR ''-''" "c \<noteq> CHR ''+''" by (auto simp: py_isdigit_def)
  have unf: "py_int ?t = (case parse_digits False 0 (c # cs) of
      None \<Rightarrow> Inl ValueError | Some n \<Rightarrow> Inr n)"
    unfolding py_int_def st unfolding t using c by simp
  have "parse_digits False 0 (c # cs) = Some (digits_value 0 ?t)"
    using parse_digits_all_digits[OF dig, of False 0] t by simp
  also have "digits_value 0 ?t = int (dec_val ?t)"
    using digits_value_dec_val[OF dig, of 0] by (simp add: dec_val_def)
  also have "\<dots> = int n" by (simp add: dec_val_zfill)
  finally have "parse_digits False 0 (c # cs) = Some (int n)" .
  then show ?thesis unfolding unf by simp
qed

lemma sequence_number_make_sno: "0 \<le> m \<Longrightarrow> sequence_number (make_sno a m) = Some m"
proof -
  assume m: "0 \<le> m"
  have "CHR ''-'' \<notin> set (format_03d m)"
    using m zfill_chars[of "CHR ''-''" 3 "nat m"] by (auto simp: format_03d_def py_isdigit_def)
  then have "last (split_sep CHR ''-'' (make_sno a m)) = format_03d m"
    by (simp add: split_sep_def make_sno_def last_split_pieces)
  then show ?thesis using m by (simp add: sequence_number_def format_03d_def py_int_zfill)
qed

lemma digit_val_nonneg: "py_isdigit c \<Longrightarrow> 0 \<le> digit_val c"
  by (simp add: py_isdigit_def digit_val_def Let_def)

lemma parse_digits_nonneg: "parse_digits prev acc t = Some n \<Longrightarrow> 0 \<le> acc \<Longrightarrow> 0 \<le> n"
proof (induction t arbitrary: prev acc)
  case Nil
  then show ?case by (simp split: if_splits)
next
  case (Cons c t)
  show ?case
  proof (cases "py_isdigit c")
    case True
    then have "0 \<le> acc * 10 + digit_val c"
      using Cons.prems(2) digit_val_nonneg[of c] by simp
    then show ?thesis using Cons.IH Cons.prems(1) True by simp
  next
    case False
    then show ?thesis using Cons by (simp split: if_splits)
  qed
qed

lemma py_int_nonneg: "CHR ''-'' \<notin> set s \<Longrightarrow> py_int s = Inr n \<Longrightarrow> 0 \<le> n"
proof -
  assume s: "CHR ''-'' \<notin> set s" and p: "py_int s = Inr n"
  have ns: "CHR ''-'' \<notin> set (strip s)" using s set_strip by blast
  show ?thesis
  proof (cases "strip s")
    case Nil
    with p show ?thesis by (simp add: py_int_def)
  next
    case (Cons c cs)
    with ns have "c \<noteq> CHR ''-''" by auto
    with p Cons have "parse_digits False 0 (c # cs) = Some n \<or> parse_digits False 0 cs = Some n"
      by (auto simp: py_int_def simp del: parse_digits.simps split: if_splits option.splits)
    then show ?thesis by (metis parse_digits_nonneg order_refl)
  qed
qed

lemma highest_number_of_nonneg: "0 \<le> highest_number_of bs"
  by (auto simp: highest_number_of_def Let_def split: sum.splits
      dest: py_int_nonneg[OF last_split_sep_no_sep])

lemma new_number_of_pos: "1 \<le> new_number_of objects self"
  using highest_number_of_nonneg[of "order_by_desc_sno (filter_event (event self) objects)"]
  by (simp add: new_number_of_def)

lemma split_words_nonempty: "x \<in> set (split_words w s) \<Longrightarrow> x \<noteq> []"
  by (induction s arbitrary: w) (auto split: if_splits)

lemma split_nonempty: "x \<in> set (split s) \<Longrightarrow> x \<noteq> []"
  unfolding split_def by (rule split_words_nonempty)

lemma event_acronym_of_map:
  "event_acronym_of t = map (\<lambda>word. py_upper_char (hd word)) (take 3 (split t))"
proof -
  have "concat (map (\<lambda>word. upper [hd word]) ws) = map (\<lambda>word. py_upper_char (hd word)) ws"
    for ws :: "string list"
    by (induction ws) (simp_all add: upper_def)
  then show ?thesis by (simp add: event_acronym_of_def)
qed

lemma order_by_desc_sno_Nil: "order_by_desc_sno bs = [] \<longleftrightarrow> bs = []"
proof -
  have "length (order_by_desc_sno bs) = length bs" by (simp add: order_by_desc_sno_def)
  then show ?thesis by (metis length_0_conv)
qed

lemma length_order_by_desc_sno: "length (order_by_desc_sno bs) = length bs"
  by (simp add: order_by_desc_sno_def)

lemma generate_unique_sno_from:
  "new_number_of objects self = n \<Longrightarrow>
   \<exists>k\<le>length objects.
     generate_unique_sno objects self =
       Some (make_sno (event_acronym_of (title (event self))) (n + int k)) \<and>
     \<not> sno_exists objects (make_sno (event_acronym_of (title (event self))) (n + int k)) \<and>
     (\<forall>j<k. sno_exists objects (make_sno (event_acronym_of (title (event self))) (n + int j)))"
  using generate_unique_sno_result[of objects self] by simp

section \<open>The number of the next serial\<close>

lemma generate_unique_sno_first_free:
  "\<not> sno_exists objects (make_sno (event_acronym_of (title (event self))) (new_number_of objects self)) \<Longrightarrow>
   generate_unique_sno objects self =
     Some (make_sno (event_acronym_of (title (event self))) (new_number_of objects self))"
  by (simp add: generate_unique_sno_def new_number_of_def Let_def sno_loop_stop)

lemma new_number_of_no_bookings:
  "filter_event (event self) objects = [] \<Longrightarrow> new_number_of objects self = 1"
  by (simp add: new_number_of_def highest_number_of_def order_by_desc_sno_def)

lemma format_03d_1: "format_03d 1 = ''001''"
  by code_simp

lemma format_03d_pos: "1 \<le> m \<Longrightarrow> format_03d m = zfill 3 (digits (nat m))"
  by (simp add: format_03d_def)

section \<open>The form of the serial number\<close>

section \<open>The first serial of an event\<close>

section \<open>The slug of a new event\<close>

lemma unformat_str: "unformat (str i) = i"
proof (cases "i < 0")
  case True
  then show ?thesis by (simp add: str_def unformat_def dec_val_digits)
next
  case False
  have "hd (digits (nat i)) \<in> set (digits (nat i))"
    by (rule hd_in_set) (rule digits_nonempty)
  then have "py_isdigit (hd (digits (nat i)))" by (rule digits_chars)
  then have "hd (digits (nat i)) \<noteq> CHR ''-''" by (auto simp: py_isdigit_def)
  with False show ?thesis by (simp add: str_def unformat_def dec_val_digits)
qed

lemma make_slug_inj: "make_slug b i = make_slug b j \<Longrightarrow> i = j"
  by (metis make_slug_def same_append_eq unformat_str)

lemma slug_exists_iff: "slug_exists objects s \<longleftrightarrow> s \<in> slug ` set objects"
  by (auto simp: slug_exists_def filter_empty_conv)

lemma slug_loop_stop:
  "\<not> slug_exists objects s \<Longrightarrow> slug_loop objects b s c = Some (s, c)"
  by (subst slug_loop.simps) simp

lemma slug_loop_step:
  "slug_exists objects s \<Longrightarrow>
   slug_loop objects b s c = slug_loop objects b (make_slug b c) (c + 1)"
  by (subst slug_loop.simps) simp

lemma slug_loop_run:
  "\<not> slug_exists objects (make_slug b (c + int d)) \<Longrightarrow>
   \<forall>j<d. slug_exists objects (make_slug b (c + int j)) \<Longrightarrow>
   slug_exists objects s \<Longrightarrow>
   slug_loop objects b s c = Some (make_slug b (c + int d), c + int d + 1)"
proof (induction d arbitrary: s c)
  case 0
  then show ?case by (simp add: slug_loop_step slug_loop_stop)
next
  case (Suc d)
  have ex: "slug_exists objects (make_slug b c)" using Suc.prems(2) by force
  have a1: "\<not> slug_exists objects (make_slug b ((c + 1) + int d))"
    using Suc.prems(1) by (simp add: algebra_simps)
  have a2: "\<forall>j<d. slug_exists objects (make_slug b ((c + 1) + int j))"
  proof (intro allI impI)
    fix j assume "j < d"
    then have "slug_exists objects (make_slug b (c + int (Suc j)))"
      using Suc.prems(2) by blast
    then show "slug_exists objects (make_slug b ((c + 1) + int j))"
      by (simp add: algebra_simps)
  qed
  have "slug_loop objects b s c = slug_loop objects b (make_slug b c) (c + 1)"
    using Suc.prems(3) by (rule slug_loop_step)
  also have "\<dots> = Some (make_slug b ((c + 1) + int d), (c + 1) + int d + 1)"
    using a1 a2 ex by (rule Suc.IH)
  finally show ?case by (simp add: algebra_simps)
qed

lemma fresh_slug:
  "\<exists>k\<le>length objects. \<not> slug_exists objects (make_slug b (1 + int k))"
proof (rule ccontr)
  assume "\<not> ?thesis"
  then have all: "\<forall>k\<le>length objects. make_slug b (1 + int k) \<in> slug ` set objects"
    by (simp add: slug_exists_iff)
  let ?f = "\<lambda>k. make_slug b (1 + int k)"
  have inj: "inj_on ?f {..length objects}"
    by (rule inj_onI) (auto dest: make_slug_inj)
  have "?f ` {..length objects} \<subseteq> slug ` set objects" using all by auto
  then have "card (?f ` {..length objects}) \<le> card (slug ` set objects)"
    by (intro card_mono) simp_all
  also have "\<dots> \<le> card (set objects)" by (rule card_image_le) simp
  also have "\<dots> \<le> length objects" by (rule card_length)
  finally show False using inj by (simp add: card_image)
qed

lemma generate_slug_free:
  "\<not> slug_exists objects (slugify t) \<Longrightarrow> generate_slug objects t = Some (slugify t)"
  by (simp add: generate_slug_def Let_def slug_loop_stop)

lemma generate_slug_taken:
  assumes "slug_exists objects (slugify t)"
  shows "generate_slug objects t =
     Some (make_slug (slugify t)
       (1 + int (LEAST k. \<not> slug_exists objects (make_slug (slugify t) (1 + int k)))))"
proof -
  let ?P = "\<lambda>k. \<not> slug_exists objects (make_slug (slugify t) (1 + int k))"
  obtain k0 where "?P k0" using fresh_slug by blast
  then have l: "?P (LEAST k. ?P k)" by (rule LeastI)
  have "\<forall>j<(LEAST k. ?P k). slug_exists objects (make_slug (slugify t) (1 + int j))"
    using not_less_Least by blast
  from slug_loop_run[OF l this assms]
  show ?thesis by (simp add: generate_slug_def Let_def)
qed

lemma least_fresh_slug:
  "(LEAST k. \<not> slug_exists objects (make_slug b (1 + int k))) \<le> length objects \<and>
   \<not> slug_exists objects (make_slug b
       (1 + int (LEAST k. \<not> slug_exists objects (make_slug b (1 + int k))))) \<and>
   (\<forall>j<(LEAST k. \<not> slug_exists objects (make_slug b (1 + int k))).
       slug_exists objects (make_slug b (1 + int j)))"
proof -
  let ?P = "\<lambda>k. \<not> slug_exists objects (make_slug b (1 + int k))"
  obtain k0 where k0: "k0 \<le> length objects" "?P k0" using fresh_slug by blast
  have "?P (LEAST k. ?P k)" using k0(2) by (rule LeastI)
  moreover have "(LEAST k. ?P k) \<le> k0" using k0(2) by (rule Least_le)
  moreover have "\<forall>j<(LEAST k. ?P k). \<not> ?P j" using not_less_Least by blast
  ultimately show ?thesis using k0(1) by auto
qed

lemma slug_exists_cong:
  "slug ` set objects = slug ` set objects' \<Longrightarrow> slug_exists objects = slug_exists objects'"
  by (auto simp: slug_exists_iff fun_eq_iff)

lemma generate_slug_cong:
  assumes "slug ` set objects = slug ` set objects'"
  shows "generate_slug objects t = generate_slug objects' t"
proof -
  have e: "slug_exists objects = slug_exists objects'" using assms by (rule slug_exists_cong)
  show ?thesis
  proof (cases "slug_exists objects (slugify t)")
    case True
    then have "slug_exists objects' (slugify t)" using e by simp
    with True show ?thesis by (simp add: generate_slug_taken e)
  next
    case False
    then have "\<not> slug_exists objects' (slugify t)" using e by simp
    with False show ?thesis by (simp add: generate_slug_free)
  qed
qed

lemma generate_slug_fresh:
  "\<exists>s. generate_slug objects t = Some s \<and> \<not> slug_exists objects s"
proof (cases "slug_exists objects (slugify t)")
  case True
  then show ?thesis using least_fresh_slug[of objects "slugify t"]
    by (simp add: generate_slug_taken)
next
  case False
  then show ?thesis by (simp add: generate_slug_free)
qed

lemma Event_super_save_fresh:
  "\<not> slug_exists (events d) (slug self) \<Longrightarrow>
   \<exists>self' d'. Event_super_save d self = Inr (self', d') \<and> slug self' = slug self \<and>
      self' \<in> set (events d')"
proof -
  assume f: "\<not> slug_exists (events d) (slug self)"
  then have n: "filter (\<lambda>r. event_pk r \<noteq> event_pk self \<and> slug r = slug self) (events d) = []"
    by (auto simp: slug_exists_def filter_empty_conv)
  show ?thesis
  proof (cases "event_pk self")
    case None
    then show ?thesis using n by (simp add: Event_super_save_def Let_def)
  next
    case (Some i)
    show ?thesis
    proof (cases "filter (\<lambda>r. event_pk r = Some i) (events d) = []")
      case True
      then show ?thesis using n Some by (simp add: Event_super_save_def)
    next
      case False
      then obtain r where "r \<in> set (events d)" "event_pk r = Some i"
        by (auto simp: filter_empty_conv)
      then have "self \<in> set (map (\<lambda>r. if event_pk r = Some i then self else r) (events d))"
        by force
      then show ?thesis using n Some False by (simp add: Event_super_save_def)
    qed
  qed
qed

text \<open>
  C5. For every title and every list of stored events, the slug that \<open>Event.save\<close>
  generates is a function of the title and of the set of stored slugs, and it is not in
  that set: it is the base slug when that is free, and otherwise the base slug followed
  by \<open>-1\<close>, \<open>-2\<close>, ... with the first number whose slug is free. The loop ends,
  and saving an event without slug stores it with the generated one. Saving an event
  titled \<open>Annual Tech Summit\<close> twice, from an empty store, gives
  \<open>annual-tech-summit\<close> and then \<open>annual-tech-summit-1\<close>.
\<close>

theorem generate_slug_unique:
  "(\<exists>s. generate_slug objects t = Some s \<and> s \<notin> slug ` set objects) \<and>
   (slugify t \<notin> slug ` set objects \<longrightarrow> generate_slug objects t = Some (slugify t)) \<and>
   (slugify t \<in> slug ` set objects \<longrightarrow>
      (\<exists>k\<le>length objects.
         generate_slug objects t = Some (slugify t @ ''-'' @ str (1 + int k)) \<and>
         slugify t @ ''-'' @ str (1 + int k) \<notin> slug ` set objects \<and>
         (\<forall>j<k. slugify t @ ''-'' @ str (1 + int j) \<in> slug ` set objects))) \<and>
   (slug ` set objects = slug ` set objects' \<longrightarrow>
      generate_slug objects t = generate_slug objects' t) \<and>
   (slug self = [] \<longrightarrow>
      (\<exists>s self' d'. generate_slug (events d) (title self) = Some s \<and>
         Event_save d self = Some (Inr (self', d')) \<and> slug self' = s \<and>
         self' \<in> set (events d'))) \<and>
   Event_save empty_db summit =
     Some (Inr (summit_first, \<lparr>events = [summit_first], bookings = []\<rparr>)) \<and>
   Event_save \<lparr>events = [summit_first], bookings = []\<rparr> summit =
     Some (Inr (summit_second, \<lparr>events = [summit_first, summit_second], bookings = []\<rparr>)) \<and>
   slug summit_first = ''annual-tech-summit'' \<and>
   slug summit_second = ''annual-tech-summit-1''"
proof (intro conjI impI)
  show "\<exists>s. generate_slug objects t = Some s \<and> s \<notin> slug ` set objects"
    using generate_slug_fresh[of objects t] by (simp add: slug_exists_iff)
next
  assume "slugify t \<notin> slug ` set objects"
  then show "generate_slug objects t = Some (slugify t)"
    by (simp add: generate_slug_free slug_exists_iff)
next
  assume "slugify t \<in> slug ` set objects"
  then have "slug_exists objects (slugify t)" by (simp add: slug_exists_iff)
  then show "\<exists>k\<le>length objects.
         generate_slug objects t = Some (slugify t @ ''-'' @ str (1 + int k)) \<and>
         slugify t @ ''-'' @ str (1 + int k) \<notin> slug ` set objects \<and>
         (\<forall>j<k. slugify t @ ''-'' @ str (1 + int j) \<in> slug ` set objects)"
    using least_fresh_slug[of objects "slugify t"] generate_slug_taken[of objects t]
    unfolding slug_exists_iff make_slug_def by blast
next
  assume "slug ` set objects = slug ` set objects'"
  then show "generate_slug objects t = generate_slug objects' t"
    by (rule generate_slug_cong)
next
  assume e: "slug self = []"
  obtain s where s: "generate_slug (events d) (title self) = Some s"
    "\<not> slug_exists (events d) s"
    using generate_slug_fresh by blast
  have "\<not> slug_exists (events d) (slug (self\<lparr>slug := s\<rparr>))" using s(2) by simp
  from Event_super_save_fresh[OF this]
  obtain self' d' where "Event_super_save d (self\<lparr>slug := s\<rparr>) = Inr (self', d')"
    "slug self' = s" "self' \<in> set (events d')" by auto
  then show "\<exists>s self' d'. generate_slug (events d) (title self) = Some s \<and>
         Event_save d self = Some (Inr (self', d')) \<and> slug self' = s \<and>
         self' \<in> set (events d')"
    using e s(1) by (simp add: Event_save_def)
next
  show "Event_save empty_db summit =
     Some (Inr (summit_first, \<lparr>events = [summit_first], bookings = []\<rparr>))"
    by code_simp
next
  show "Event_save \<lparr>events = [summit_first], bookings = []\<rparr> summit =
     Some (Inr (summit_second, \<lparr>events = [summit_first, summit_second], bookings = []\<rparr>))"
    by code_simp
next
  show "slug summit_first = ''annual-tech-summit''" by (simp add: summit_first_def)
next
  show "slug summit_second = ''annual-tech-summit-1''" by (simp add: summit_second_def)
qed

theorem generate_slug_unique_witness:
  "slugify ''Annual Tech Summit'' \<in> slug ` set [summit_first, summit_second] \<and>
   generate_slug [summit_first, summit_second] ''Annual Tech Summit''
     = Some ''annual-tech-summit-2'' \<and>
   ''annual-tech-summit-2'' \<notin> slug ` set [summit_first, summit_second] \<and>
   slugify ''Alpha Meetup'' \<notin> slug ` set [summit_first, summit_second] \<and>
   generate_slug [summit_first, summit_second] ''Alpha Meetup'' = Some ''alpha-meetup'' \<and>
   slug ` set [summit_first, summit_second] = slug ` set [summit_second, summit_first, summit_first] \<and>
   generate_slug [summit_second, summit_first, summit_first] ''Annual Tech Summit''
     = Some ''annual-tech-summit-2'' \<and>
   slug summit = []"
proof -
  have a: "slugify ''Annual Tech Summit'' \<in> slug ` set [summit_first, summit_second]"
    by code_simp
  have g: "generate_slug [summit_first, summit_second] ''Annual Tech Summit''
     = Some ''annual-tech-summit-2''"
    by code_simp
  have b: "slugify ''Alpha Meetup'' \<notin> slug ` set [summit_first, summit_second]"
    by code_simp
  have s: "slugify ''Alpha Meetup'' = ''alpha-meetup''" by code_simp
  have c: "slug ` set [summit_first, summit_second] =
      slug ` set [summit_second, summit_first, summit_first]"
    by auto
  have e: "slug summit = []" by (simp add: summit_def)
  have 1: "''annual-tech-summit-2'' \<notin> slug ` set [summit_first, summit_second]"
    using generate_slug_unique[of "[summit_first, summit_second]" "''Annual Tech Summit''"] g
    by auto
  have 2: "generate_slug [summit_first, summit_second] ''Alpha Meetup'' = Some ''alpha-meetup''"
    using generate_slug_unique[of "[summit_first, summit_second]" "''Alpha Meetup''"] b s
    by simp
  have 3: "generate_slug [summit_second, summit_first, summit_first] ''Annual Tech Summit''
     = Some ''annual-tech-summit-2''"
    using generate_slug_unique[of "[summit_first, summit_second]" "''Annual Tech Summit''"
        "[summit_second, summit_first, summit_first]"] c g
    by simp
  show ?thesis using a g 1 b 2 c 3 e by blast
qed

section \<open>The base slug\<close>

lemma of_char_lower: "(of_char (py_lower_char c) :: nat) =
    (if 65 \<le> (of_char c :: nat) \<and> (of_char c :: nat) \<le> 90 then of_char c + 32 else of_char c)"
  by (simp add: py_lower_char_def Let_def)

lemma py_isalnum_lower: "py_isalnum c \<Longrightarrow> py_isalnum (py_lower_char c)"
  by (auto simp: py_isalnum_def of_char_lower Let_def)

lemma char_eq_of_char: "c = d \<longleftrightarrow> (of_char c :: nat) = of_char d"
  by auto

lemma alnum_not_sep: "py_isalnum c \<Longrightarrow> \<not> is_dash_or_space c"
  by (auto simp: py_isalnum_def is_dash_or_space_def py_isspace_def Let_def)

lemma alnum_not_strippable: "py_isalnum c \<Longrightarrow> c \<noteq> CHR ''-'' \<and> c \<noteq> CHR ''_''"
  by (auto simp: py_isalnum_def Let_def)

lemma lower_sep: "is_dash_or_space c \<Longrightarrow> py_lower_char c = c"
  by (auto simp: is_dash_or_space_def py_isspace_def py_lower_char_def Let_def)

lemma separated_chars: "separated p t \<Longrightarrow> c \<in> set t \<Longrightarrow> py_isalnum c \<or> is_dash_or_space c"
  by (induction t arbitrary: p) (auto split: if_splits)

lemma filter_simple:
  assumes "separated p t"
  shows "filter (\<lambda>c. is_word_char c \<or> is_dash_or_space c) (lower t) = lower t"
proof -
  have "is_word_char (py_lower_char c) \<or> is_dash_or_space (py_lower_char c)" if "c \<in> set t" for c
    using separated_chars[OF assms that]
    by (auto simp: is_word_char_def py_isalnum_lower lower_sep)
  then show ?thesis by (simp add: lower_def filter_id_conv)
qed

lemma collapse_separated:
  "separated p t \<Longrightarrow> (q \<longrightarrow> p) \<Longrightarrow> collapse_runs q (lower t) = spec_base_slug t"
proof (induction t arbitrary: p q)
  case Nil
  then show ?case by (simp add: lower_def spec_base_slug_def)
next
  case (Cons c cs)
  show ?case
  proof (cases "py_isalnum c")
    case True
    then have ns: "\<not> is_dash_or_space (py_lower_char c)"
      by (intro alnum_not_sep py_isalnum_lower)
    have "separated False cs" using Cons.prems(1) True by simp
    then have "collapse_runs False (lower cs) = spec_base_slug cs"
      by (rule Cons.IH) simp
    then show ?thesis using True ns by (simp add: lower_def spec_base_slug_def)
  next
    case False
    then have s: "is_dash_or_space c" "\<not> p" "separated True cs"
      using Cons.prems(1) by simp_all
    then have "\<not> q" using Cons.prems(2) by simp
    have "collapse_runs True (lower cs) = spec_base_slug cs"
      using s(3) by (rule Cons.IH) simp
    then show ?thesis using False s(1) \<open>\<not> q\<close>
      by (simp add: lower_def spec_base_slug_def lower_sep)
  qed
qed

lemma separated_last: "separated p t \<Longrightarrow> t \<noteq> [] \<Longrightarrow> py_isalnum (last t)"
  by (induction t arbitrary: p) (auto split: if_splits)

lemma separated_hd: "separated True t \<Longrightarrow> t \<noteq> [] \<and> py_isalnum (hd t)"
  by (cases t) (auto split: if_splits)

lemma strip_chars_id:
  "s \<noteq> [] \<Longrightarrow> \<not> p (hd s) \<Longrightarrow> \<not> p (last s) \<Longrightarrow> strip_chars p s = s"
proof -
  assume a: "s \<noteq> []" "\<not> p (hd s)" "\<not> p (last s)"
  then have "dropWhile p s = s" by (cases s) auto
  moreover have "dropWhile p (rev s) = rev s"
    using a by (cases "rev s") (auto simp: hd_rev)
  ultimately show ?thesis by (simp add: strip_chars_def)
qed

lemma slugify_simple_title:
  assumes "simple_title t"
  shows "slugify t = spec_base_slug t"
proof (cases "t = []")
  case True
  then show ?thesis by (simp add: slugify_def spec_base_slug_def lower_def strip_chars_def)
next
  case False
  then have sep: "separated True t" using assms by (simp add: simple_title_def)
  have f: "filter (\<lambda>c. is_word_char c \<or> is_dash_or_space c) (lower t) = lower t"
    using sep by (rule filter_simple)
  have c: "collapse_runs False (lower t) = spec_base_slug t"
    using sep by (rule collapse_separated) simp
  have ne: "spec_base_slug t \<noteq> []" using False by (simp add: spec_base_slug_def)
  have "py_isalnum (hd t)" using sep separated_hd by blast
  then have h: "hd (spec_base_slug t) = py_lower_char (hd t)"
    using False by (simp add: spec_base_slug_def hd_map)
  have "py_isalnum (last t)" using sep False by (rule separated_last)
  then have l: "last (spec_base_slug t) = py_lower_char (last t)"
    using False by (simp add: spec_base_slug_def last_map)
  have h': "\<not> (hd (spec_base_slug t) = CHR ''-'' \<or> hd (spec_base_slug t) = CHR ''_'')"
    unfolding h using \<open>py_isalnum (hd t)\<close> py_isalnum_lower alnum_not_strippable by blast
  have l': "\<not> (last (spec_base_slug t) = CHR ''-'' \<or> last (spec_base_slug t) = CHR ''_'')"
    unfolding l using \<open>py_isalnum (last t)\<close> py_isalnum_lower alnum_not_strippable by blast
  have "strip_chars (\<lambda>c. c = CHR ''-'' \<or> c = CHR ''_'') (spec_base_slug t) = spec_base_slug t"
    using ne h' l' by (rule strip_chars_id)
  then show ?thesis by (simp add: slugify_def Let_def f c)
qed

lemma set_collapse_runs: "set (collapse_runs q s) \<subseteq> insert CHR ''-'' {c \<in> set s. \<not> is_dash_or_space c}"
  by (induction s arbitrary: q) auto

lemma set_strip_chars: "set (strip_chars p s) \<subseteq> set s"
  by (auto simp: strip_chars_def dest!: set_dropWhileD)

lemma slugify_chars:
  assumes "c \<in> set (slugify t)"
  shows "is_word_char c \<or> c = CHR ''-''"
proof -
  let ?v = "filter (\<lambda>c. is_word_char c \<or> is_dash_or_space c) (lower t)"
  have "c \<in> set (collapse_runs False ?v)"
    using assms set_strip_chars by (fastforce simp: slugify_def Let_def)
  then have "c = CHR ''-'' \<or> (c \<in> set ?v \<and> \<not> is_dash_or_space c)"
    using set_collapse_runs[of False ?v] by auto
  then show ?thesis by auto
qed

lemma slugify_lowercase:
  assumes "c \<in> set (slugify t)"
  shows "py_lower_char c = c"
proof -
  let ?v = "filter (\<lambda>c. is_word_char c \<or> is_dash_or_space c) (lower t)"
  have "c \<in> set (collapse_runs False ?v)"
    using assms set_strip_chars by (fastforce simp: slugify_def Let_def)
  then have "c = CHR ''-'' \<or> c \<in> set (lower t)"
    using set_collapse_runs[of False ?v] by auto
  moreover have "py_lower_char (py_lower_char d) = py_lower_char d" for d
    by (simp add: py_lower_char_def Let_def)
  moreover have "py_lower_char CHR ''-'' = CHR ''-''" by (simp add: py_lower_char_def)
  ultimately show ?thesis by (auto simp: lower_def)
qed

section \<open>Saving again\<close>

lemma with_defaults_fields:
  "sno (with_defaults b) = sno b" "booking_pk (with_defaults b) = booking_pk b"
  "is_activated (with_defaults b) = is_activated b" "event (with_defaults b) = event b"
  by (simp_all add: with_defaults_def generate_qr_code_def Let_def)

lemma Booking_save_with_sno:
  "sno self \<noteq> [] \<Longrightarrow> Booking_save d self = Some (Booking_super_save d (with_defaults self))"
  by (simp add: Booking_save_def with_defaults_def Let_def)

lemma Booking_super_save_Inr:
  assumes "Booking_super_save d b = Inr (b', d')"
  shows "sno b' = sno b \<and> is_activated b' = is_activated b \<and> event b' = event b \<and>
         b' \<in> set (bookings d') \<and> events d' = events d"
proof (cases "booking_pk b")
  case None
  then show ?thesis using assms
    by (auto simp: Booking_super_save_def Let_def split: if_splits)
next
  case (Some i)
  show ?thesis
  proof (cases "filter (\<lambda>r. booking_pk r = Some i) (bookings d) = []")
    case True
    then show ?thesis using assms Some
      by (auto simp: Booking_super_save_def split: if_splits)
  next
    case False
    then obtain r where "r \<in> set (bookings d)" "booking_pk r = Some i"
      by (auto simp: filter_empty_conv)
    then have "b \<in> set (map (\<lambda>r. if booking_pk r = Some i then b else r) (bookings d))"
      by force
    then show ?thesis using assms Some False
      by (auto simp: Booking_super_save_def split: if_splits)
  qed
qed

lemma Event_super_save_Inr:
  assumes "Event_super_save d e = Inr (e', d')"
  shows "slug e' = slug e \<and> title e' = title e \<and> e' \<in> set (events d') \<and>
         bookings d' = bookings d"
proof (cases "event_pk e")
  case None
  then show ?thesis using assms
    by (auto simp: Event_super_save_def Let_def split: if_splits)
next
  case (Some i)
  show ?thesis
  proof (cases "filter (\<lambda>r. event_pk r = Some i) (events d) = []")
    case True
    then show ?thesis using assms Some
      by (auto simp: Event_super_save_def split: if_splits)
  next
    case False
    then obtain r where "r \<in> set (events d)" "event_pk r = Some i"
      by (auto simp: filter_empty_conv)
    then have "e \<in> set (map (\<lambda>r. if event_pk r = Some i then e else r) (events d))"
      by force
    then show ?thesis using assms Some False
      by (auto simp: Event_super_save_def split: if_splits)
  qed
qed

text \<open>
  C8. A save of a booking whose \<open>sno\<close> is not empty returns without generating a
  serial number, and when it succeeds the saved booking, which is in the store, has the
  \<open>sno\<close> it had; a save of an event whose \<open>slug\<close> is not empty does the same for
  the slug.
\<close>

theorem save_keeps_identifier:
  "(sno self \<noteq> [] \<longrightarrow>
      (\<exists>r. Booking_save d self = Some r) \<and>
      (\<forall>self' d'. Booking_save d self = Some (Inr (self', d')) \<longrightarrow>
         sno self' = sno self \<and> self' \<in> set (bookings d'))) \<and>
   (slug e \<noteq> [] \<longrightarrow>
      (\<exists>r. Event_save d e = Some r) \<and>
      (\<forall>e' d'. Event_save d e = Some (Inr (e', d')) \<longrightarrow>
         slug e' = slug e \<and> e' \<in> set (events d')))"
proof (intro conjI impI allI)
  assume "sno self \<noteq> []"
  then show "\<exists>r. Booking_save d self = Some r" by (simp add: Booking_save_with_sno)
next
  fix self' d'
  assume s: "sno self \<noteq> []" and r: "Booking_save d self = Some (Inr (self', d'))"
  then have "Booking_super_save d (with_defaults self) = Inr (self', d')"
    by (simp add: Booking_save_with_sno)
  from Booking_super_save_Inr[OF this] show "sno self' = sno self" "self' \<in> set (bookings d')"
    by (simp_all add: with_defaults_fields)
next
  assume "slug e \<noteq> []"
  then show "\<exists>r. Event_save d e = Some r" by (simp add: Event_save_def)
next
  fix e' d'
  assume s: "slug e \<noteq> []" and r: "Event_save d e = Some (Inr (e', d'))"
  then have "Event_super_save d e = Inr (e', d')" by (simp add: Event_save_def)
  from Event_super_save_Inr[OF this] show "slug e' = slug e" "e' \<in> set (events d')"
    by simp_all
qed

theorem save_keeps_identifier_witness:
  "sno ((stored 2 apple ''AM-002'')\<lparr>is_activated := True\<rparr>) \<noteq> [] \<and>
   Booking_save two_bookings ((stored 2 apple ''AM-002'')\<lparr>is_activated := True\<rparr>) =
     Some (Inr ((stored 2 apple ''AM-002'')\<lparr>is_activated := True\<rparr>, two_bookings_scanned)) \<and>
   sno ((stored 2 apple ''AM-002'')\<lparr>is_activated := True\<rparr>) = ''AM-002'' \<and>
   slug (alpha\<lparr>title := ''Beta Meetup''\<rparr>) \<noteq> [] \<and>
   Event_save two_bookings (alpha\<lparr>title := ''Beta Meetup''\<rparr>) =
     Some (Inr (alpha\<lparr>title := ''Beta Meetup''\<rparr>,
       two_bookings\<lparr>events := [alpha\<lparr>title := ''Beta Meetup''\<rparr>, apple]\<rparr>)) \<and>
   slug (alpha\<lparr>title := ''Beta Meetup''\<rparr>) = slug alpha"
proof -
  let ?b = "(stored 2 apple ''AM-002'')\<lparr>is_activated := True\<rparr>"
  let ?e = "alpha\<lparr>title := ''Beta Meetup''\<rparr>"
  have a: "sno ?b \<noteq> []" by (simp add: stored_def)
  have s: "Booking_save two_bookings ?b = Some (Inr (?b, two_bookings_scanned))" by code_simp
  have n: "sno ?b = ''AM-002''" by (simp add: stored_def)
  have c: "slug ?e \<noteq> []" by (simp add: alpha_def)
  have t: "Event_save two_bookings ?e =
     Some (Inr (?e, two_bookings\<lparr>events := [?e, apple]\<rparr>))" by code_simp
  have "slug ?e = slug alpha"
    using save_keeps_identifier[of ?b two_bookings ?e] by simp
  with a s n c t show ?thesis by blast
qed

section \<open>Scanning twice\<close>

lemma filter_distinct_key:
  "distinct (map f xs) \<Longrightarrow> x \<in> set xs \<Longrightarrow> filter (\<lambda>r. f r = f x) xs = [x]"
proof (induction xs)
  case Nil
  then show ?case by simp
next
  case (Cons a xs)
  show ?case
  proof (cases "x = a")
    case True
    have "f a \<notin> f ` set xs" using Cons.prems(1) by simp
    then have "filter (\<lambda>r. f r = f a) xs = []"
      unfolding filter_empty_conv by (metis imageI)
    with True show ?thesis by simp
  next
    case False
    then have x: "x \<in> set xs" using Cons.prems(2) by simp
    then have "f a \<noteq> f x" using Cons.prems(1) by auto
    then show ?thesis using Cons.IH Cons.prems(1) x by simp
  qed
qed

lemma objects_get_unique:
  "distinct (map f xs) \<Longrightarrow> x \<in> set xs \<Longrightarrow> f x = v \<Longrightarrow> objects_get (\<lambda>r. f r = v) xs = Inr x"
  using filter_distinct_key[of f xs x] by (auto simp: objects_get_def)

lemma distinct_key_eq:
  "distinct (map f xs) \<Longrightarrow> x \<in> set xs \<Longrightarrow> y \<in> set xs \<Longrightarrow> f x = f y \<Longrightarrow> x = y"
  by (meson distinct_map inj_on_def)

lemma replace_row:
  assumes wf: "wf_bookings bs" and b: "b \<in> set bs" and pk: "booking_pk b = Some i"
    and b': "booking_pk b' = Some i" "sno b' = sno b"
  shows "wf_bookings (map (\<lambda>r. if booking_pk r = Some i then b' else r) bs) \<and>
         b' \<in> set (map (\<lambda>r. if booking_pk r = Some i then b' else r) bs)"
proof -
  let ?g = "\<lambda>r. if booking_pk r = Some i then b' else r"
  have d1: "distinct (map booking_pk bs)" and d2: "distinct (map sno bs)"
    and ne: "\<forall>r\<in>set bs. booking_pk r \<noteq> None \<and> sno r \<noteq> []"
    using wf by (simp_all add: wf_bookings_def)
  have same: "r = b" if "r \<in> set bs" "booking_pk r = Some i" for r
    using distinct_key_eq[OF d1 that(1) b] that(2) pk by simp
  have m1: "map booking_pk (map ?g bs) = map booking_pk bs"
    using b'(1) by (auto simp: comp_def)
  have m2: "map sno (map ?g bs) = map sno bs"
    using b'(2) same by (auto simp: comp_def)
  have "\<forall>r\<in>set (map ?g bs). booking_pk r \<noteq> None \<and> sno r \<noteq> []"
    using ne b b' by auto
  moreover have "b' \<in> set (map ?g bs)" using b pk by force
  ultimately show ?thesis using d1 d2 unfolding wf_bookings_def m1 m2 by blast
qed

lemma toggle_and_save_stored:
  assumes wf: "wf_bookings (bookings d)" and b: "b \<in> set (bookings d)"
    and pk: "booking_pk b = Some i"
  shows "\<exists>b1 d1. toggle_and_save d b = Some (Inr (Response (scan_response b1), d1)) \<and>
           is_activated b1 = (\<not> is_activated b) \<and> sno b1 = sno b \<and> booking_pk b1 = Some i \<and>
           b1 \<in> set (bookings d1) \<and> wf_bookings (bookings d1)"
proof -
  let ?t = "b\<lparr>is_activated := \<not> is_activated b\<rparr>"
  let ?b1 = "with_defaults ?t"
  let ?g = "\<lambda>r. if booking_pk r = Some i then ?b1 else r"
  have d2: "distinct (map sno (bookings d))" using wf by (simp add: wf_bookings_def)
  have s: "sno b \<noteq> []" using wf b by (simp add: wf_bookings_def)
  have f: "sno ?b1 = sno b" "booking_pk ?b1 = Some i" "is_activated ?b1 = (\<not> is_activated b)"
    using pk by (simp_all add: with_defaults_fields)
  have sv: "Booking_save d ?t = Some (Booking_super_save d ?b1)"
    using s by (simp add: Booking_save_with_sno)
  have u: "filter (\<lambda>r. booking_pk r \<noteq> booking_pk ?b1 \<and> sno r = sno ?b1) (bookings d) = []"
  proof -
    have "booking_pk r = Some i" if "r \<in> set (bookings d)" "sno r = sno b" for r
      using distinct_key_eq[OF d2 that(1) b that(2)] pk by simp
    then show ?thesis unfolding f by (auto simp: filter_empty_conv)
  qed
  have e: "filter (\<lambda>r. booking_pk r = Some i) (bookings d) \<noteq> []"
    using b pk by (auto simp: filter_empty_conv)
  have "Booking_super_save d ?b1 = Inr (?b1, d\<lparr>bookings := map ?g (bookings d)\<rparr>)"
    unfolding Booking_super_save_def using u e f(2) by simp
  then have "toggle_and_save d b =
      Some (Inr (Response (scan_response ?b1), d\<lparr>bookings := map ?g (bookings d)\<rparr>))"
    by (simp add: toggle_and_save_def sv)
  moreover have "wf_bookings (map ?g (bookings d)) \<and> ?b1 \<in> set (map ?g (bookings d))"
    using wf b pk f(2) f(1) by (rule replace_row)
  ultimately show ?thesis using f by (intro exI[of _ ?b1] exI[of _ "d\<lparr>bookings := map ?g (bookings d)\<rparr>"]) simp
qed

lemma scan_stored:
  assumes wf: "wf_bookings (bookings d)" and b: "b \<in> set (bookings d)"
    and pk: "booking_pk b = Some i"
  shows "scan_qr d i = toggle_and_save d b" "scan_qr_by_sno d (sno b) = toggle_and_save d b"
proof -
  have d1: "distinct (map booking_pk (bookings d))" and d2: "distinct (map sno (bookings d))"
    using wf by (simp_all add: wf_bookings_def)
  show "scan_qr d i = toggle_and_save d b"
    using objects_get_unique[OF d1 b pk] by (simp add: scan_qr_def)
  show "scan_qr_by_sno d (sno b) = toggle_and_save d b"
    using objects_get_unique[OF d2 b refl] by (simp add: scan_qr_by_sno_def)
qed

text \<open>
  C10. For a stored booking, each of the two scan endpoints answers with the negated
  flag and stores it, so a second scan (by either endpoint) answers with the original
  flag and stores that: the scan toggles, it does not activate idempotently.
\<close>

theorem scan_twice:
  assumes "wf_bookings (bookings d)" and "b \<in> set (bookings d)" and "booking_pk b = Some i"
  shows "\<exists>b1 d1 b2 d2.
     scan_qr d i = Some (Inr (Response (scan_response b1), d1)) \<and>
     scan_qr_by_sno d (sno b) = Some (Inr (Response (scan_response b1), d1)) \<and>
     is_activated b1 = (\<not> is_activated b) \<and> b1 \<in> set (bookings d1) \<and>
     scan_qr d1 i = Some (Inr (Response (scan_response b2), d2)) \<and>
     scan_qr_by_sno d1 (sno b) = Some (Inr (Response (scan_response b2), d2)) \<and>
     is_activated b2 = is_activated b \<and> b2 \<in> set (bookings d2) \<and>
     booking_pk b2 = Some i \<and> sno b2 = sno b"
proof -
  from toggle_and_save_stored[OF assms]
  obtain b1 d1 where 1: "toggle_and_save d b = Some (Inr (Response (scan_response b1), d1))"
    "is_activated b1 = (\<not> is_activated b)" "sno b1 = sno b" "booking_pk b1 = Some i"
    "b1 \<in> set (bookings d1)" "wf_bookings (bookings d1)" by blast
  from toggle_and_save_stored[OF 1(6) 1(5) 1(4)]
  obtain b2 d2 where 2: "toggle_and_save d1 b1 = Some (Inr (Response (scan_response b2), d2))"
    "is_activated b2 = (\<not> is_activated b1)" "sno b2 = sno b1" "booking_pk b2 = Some i"
    "b2 \<in> set (bookings d2)" by blast
  have "scan_qr d i = Some (Inr (Response (scan_response b1), d1))"
    "scan_qr_by_sno d (sno b) = Some (Inr (Response (scan_response b1), d1))"
    using scan_stored[OF assms] 1(1) by simp_all
  moreover have "scan_qr d1 i = Some (Inr (Response (scan_response b2), d2))"
    "scan_qr_by_sno d1 (sno b) = Some (Inr (Response (scan_response b2), d2))"
    using scan_stored[OF 1(6) 1(5) 1(4)] 2(1) 1(3) by simp_all
  ultimately show ?thesis using 1 2 by (intro exI[of _ b1] exI[of _ d1] exI[of _ b2] exI[of _ d2]) simp
qed

theorem scan_twice_witness:
  "wf_bookings (bookings two_bookings) \<and>
   stored 2 apple ''AM-002'' \<in> set (bookings two_bookings) \<and>
   booking_pk (stored 2 apple ''AM-002'') = Some 2 \<and>
   scan_qr two_bookings 2 =
     Some (Inr (Response \<lparr>data_is_activated = True, data_status = ''Activated'',
        data_message = ''Booking AM-002 activated successfully''\<rparr>, two_bookings_scanned)) \<and>
   scan_qr_by_sno two_bookings_scanned ''AM-002'' =
     Some (Inr (Response \<lparr>data_is_activated = False, data_status = ''Not Scanned'',
        data_message = ''Booking AM-002 deactivated successfully''\<rparr>, two_bookings))"
proof -
  have a: "wf_bookings (bookings two_bookings)" by code_simp
  have b: "stored 2 apple ''AM-002'' \<in> set (bookings two_bookings)" by code_simp
  have c: "booking_pk (stored 2 apple ''AM-002'') = Some 2" by (simp add: stored_def)
  have 1: "scan_qr two_bookings 2 =
     Some (Inr (Response \<lparr>data_is_activated = True, data_status = ''Activated'',
        data_message = ''Booking AM-002 activated successfully''\<rparr>, two_bookings_scanned))"
    by code_simp
  have 2: "scan_qr_by_sno two_bookings_scanned ''AM-002'' =
     Some (Inr (Response \<lparr>data_is_activated = False, data_status = ''Not Scanned'',
        data_message = ''Booking AM-002 deactivated successfully''\<rparr>, two_bookings))"
    by code_simp
  show ?thesis using scan_twice[OF a b c] a b c 1 2 by blast
qed

end
